theory Spec2Isabelle
  imports Complex_Main
begin

section \<open>The PDF compressor \<^verbatim>\<open>compress_pdf.py\<close>\<close>

text \<open>
  The script opens a PDF with the PyMuPDF library (imported as \<^verbatim>\<open>fitz\<close>), re-encodes every
  embedded image as a JPEG, saves the document and reports the two file sizes. The
  library is not part of the repository: its calls are the fields of a record \<open>L\<close> that
  every definition below takes as a parameter, each call returning either the message of
  the exception it raised (\<open>Inl\<close>) or its value (\<open>Inr\<close>). Python \<^verbatim>\<open>int\<close>s are \<^typ>\<open>int\<close>,
  \<^verbatim>\<open>//\<close> is \<open>div\<close> (both round towards minus infinity) with the zero divisor written out.
\<close>

subsection \<open>Data\<close>

type_synonym xref = nat
type_synonym bytes = "nat list"
type_synonym filesystem = "string \<rightharpoonup> bytes"

datatype exn = ZeroDivisionError | AttributeError | FitzError string

record colorspace =
  cs_name :: string
  cs_n :: int

text \<open>\<^verbatim>\<open>fitz.csRGB\<close>, the library's predefined RGB colorspace.\<close>

definition csRGB :: colorspace where
  "csRGB = \<lparr>cs_name = ''DeviceRGB'', cs_n = 3\<rparr>"

text \<open>
  A \<^verbatim>\<open>fitz.Pixmap\<close>. Its \<^verbatim>\<open>colorspace\<close> attribute is \<^verbatim>\<open>None\<close> for an image mask, and then
  \<^verbatim>\<open>pix.colorspace.n\<close> raises \<^verbatim>\<open>AttributeError\<close>.
\<close>

record pixmap =
  width :: int
  height :: int
  colorspace :: "colorspace option"
  samples :: bytes

text \<open>
  The library calls the script makes, in the order of the source:
  \<^verbatim>\<open>fitz.open(path)\<close>, \<^verbatim>\<open>len(doc)\<close>, \<^verbatim>\<open>page.get_images(full=True)\<close> (only item 0 of each
  entry, the xref, is read), \<^verbatim>\<open>fitz.Pixmap(doc, xref)\<close>, \<^verbatim>\<open>fitz.Pixmap(fitz.csRGB, pix)\<close>,
  \<^verbatim>\<open>pix.shrink(factor)\<close> (in place; the model returns the changed pixmap),
  \<^verbatim>\<open>pix.tobytes("jpg", jpg_quality=quality)\<close>, \<^verbatim>\<open>page.replace_image(xref, stream=img_bytes)\<close>
  (in place; the model returns the changed document) and
  \<^verbatim>\<open>doc.save(path, garbage=4, deflate=True, clean=True)\<close> (the bytes written).
  Enumerating the pages and their images is taken not to raise.

  Modelled from the spec: what a library call that raises leaves behind. The library is
  not in the repository; as the spec has it for the replacement (section 4.1, step 6: a
  failed replacement leaves the stream of the document untouched), a call that raises has
  changed nothing, so each call returns either the message of its exception or its result.
\<close>

record 'd fitz =
  open_doc :: "bytes \<Rightarrow> string + 'd"
  page_count :: "'d \<Rightarrow> nat"
  get_images :: "'d \<Rightarrow> nat \<Rightarrow> xref list"
  Pixmap_of_xref :: "'d \<Rightarrow> xref \<Rightarrow> string + pixmap"
  Pixmap_convert :: "colorspace \<Rightarrow> pixmap \<Rightarrow> string + pixmap"
  shrink :: "pixmap \<Rightarrow> int \<Rightarrow> string + pixmap"
  tobytes_jpg :: "pixmap \<Rightarrow> int \<Rightarrow> string + bytes"
  replace_image :: "'d \<Rightarrow> nat \<Rightarrow> xref \<Rightarrow> bytes \<Rightarrow> string + 'd"
  save :: "'d \<Rightarrow> string + bytes"

text \<open>
  The calls of the per-image procedure are recorded as they are made (a ghost
  field of the state below): materializing an xref (and whether it succeeded),
  re-encoding a buffer at a quality, replacing the stream of an xref on a page.
\<close>

datatype event =
  Materialize xref bool
| Encode xref pixmap int
| Replace nat xref bytes

record 'd state =
  doc :: 'd
  processed_xrefs :: "xref set"
  stdout :: "string list"
  calls :: "event list"

subsection \<open>Printing numbers\<close>

text \<open>\<^verbatim>\<open>str\<close> of an \<^verbatim>\<open>int\<close>, as an f-string inserts it.\<close>

definition digit :: "int \<Rightarrow> char" where
  "digit d = ''0123456789'' ! nat d"

function str_int :: "int \<Rightarrow> string" where
  "str_int n =
     (if n < 0 then CHR ''-'' # str_int (- n)
      else if n < 10 then [digit n]
      else str_int (n div 10) @ [digit (n mod 10)])"
  by pat_completeness auto
termination
  by (relation "measure (\<lambda>n. if n < 0 then Suc (nat (- n)) else nat n)") auto

declare str_int.simps [simp del]

text \<open>
  A finite Python \<^verbatim>\<open>float\<close> is the rational number it denotes. Every arithmetic
  operation on floats returns the exact result rounded to the nearest number with a
  53-bit significand, ties to the even significand: \<open>fl\<close>. Overflow and subnormal
  numbers are left out (the values here are file sizes and their quotients). \<^verbatim>\<open>int / int\<close>
  is correctly rounded as well.
\<close>

function bit_length :: "int \<Rightarrow> int" where
  "bit_length n = (if n \<le> 0 then 0 else 1 + bit_length (n div 2))"
  by pat_completeness auto
termination
  by (relation "measure nat") auto

declare bit_length.simps [simp del]

definition pow2 :: "int \<Rightarrow> rat" where
  "pow2 e = (if 0 \<le> e then 2 ^ nat e else 1 / 2 ^ nat (- e))"

text \<open>The binary exponent \<open>e\<close> of \<open>x \<noteq> 0\<close>: \<open>2 ^ e \<le> \<bar>x\<bar> < 2 ^ (e + 1)\<close>.\<close>

definition exponent :: "rat \<Rightarrow> int" where
  "exponent x =
     (let (a, b) = quotient_of \<bar>x\<bar>;
          k = bit_length a - bit_length b
      in if pow2 k \<le> \<bar>x\<bar> then k else k - 1)"

definition round_half_even :: "rat \<Rightarrow> int" where
  "round_half_even q =
     (let f = \<lfloor>q\<rfloor>; d = q - of_int f
      in if d < 1 / 2 then f else if 1 / 2 < d then f + 1 else if even f then f else f + 1)"

definition fl :: "rat \<Rightarrow> rat" where
  "fl x = (if x = 0 then 0
           else let ulp = pow2 (exponent x - 52)
                in of_int (round_half_even (x / ulp)) * ulp)"

text \<open>
  \<^verbatim>\<open>f"{x:.Nf}"\<close>: the exact value of the float rounded to \<open>N\<close> decimals, ties to even, the
  sign kept also when the digits are all zero.
\<close>

definition zfill :: "nat \<Rightarrow> string \<Rightarrow> string" where
  "zfill w s = replicate (w - length s) CHR ''0'' @ s"

definition format_f :: "nat \<Rightarrow> rat \<Rightarrow> string" where
  "format_f prec x =
     (let r = round_half_even (\<bar>x\<bar> * 10 ^ prec)
      in (if x < 0 then ''-'' else '''') @ str_int (r div 10 ^ prec) @
         (if prec = 0 then '''' else ''.'' @ zfill prec (str_int (r mod 10 ^ prec))))"

subsection \<open>The per-image procedure (lines 42 to 72)\<close>

text \<open>Lines 54 and 55: \<^verbatim>\<open>if pix.colorspace.n > 3: pix = fitz.Pixmap(fitz.csRGB, pix)\<close>.\<close>

definition normalize_colorspace :: "'d fitz \<Rightarrow> pixmap \<Rightarrow> exn + pixmap" where
  "normalize_colorspace L pix =
     (case colorspace pix of
        None \<Rightarrow> Inl AttributeError
      | Some cs \<Rightarrow>
          if cs_n cs > 3 then
            (case Pixmap_convert L csRGB pix of
               Inl msg \<Rightarrow> Inl (FitzError msg)
             | Inr rgb \<Rightarrow> Inr rgb)
          else Inr pix)"

text \<open>
  Lines 58 to 61. \<^verbatim>\<open>max(pix.width, pix.height) // max_dimension\<close> raises
  \<^verbatim>\<open>ZeroDivisionError\<close> when \<^verbatim>\<open>max_dimension\<close> is 0.
\<close>

definition downscale :: "'d fitz \<Rightarrow> int \<Rightarrow> pixmap \<Rightarrow> exn + pixmap" where
  "downscale L max_dimension pix =
     (if max (width pix) (height pix) > max_dimension then
        if max_dimension = 0 then Inl ZeroDivisionError
        else
          let factor = max (width pix) (height pix) div max_dimension in
          if factor > 1 then
            (case shrink L pix factor of
               Inl msg \<Rightarrow> Inl (FitzError msg)
             | Inr small \<Rightarrow> Inr small)
          else Inr pix
      else Inr pix)"

text \<open>
  The body of the inner loop. \<open>Inr\<close> is the state with which the loop goes on (also after
  a \<^verbatim>\<open>continue\<close>); \<open>Inl\<close> is an exception leaving the loop, with the state reached.
\<close>

definition process_image ::
  "'d fitz \<Rightarrow> int \<Rightarrow> int \<Rightarrow> nat \<Rightarrow> xref \<Rightarrow> 'd state \<Rightarrow> (exn \<times> 'd state) + 'd state" where
  "process_image L quality max_dimension page xref s =
     (if xref \<in> processed_xrefs s then Inr s
      else
        case Pixmap_of_xref L (doc s) xref of
          Inl _ \<Rightarrow> Inr (s\<lparr>calls := calls s @ [Materialize xref False]\<rparr>)
        | Inr pix \<Rightarrow>
            let s1 = s\<lparr>calls := calls s @ [Materialize xref True]\<rparr> in
            (case normalize_colorspace L pix of
               Inl e \<Rightarrow> Inl (e, s1)
             | Inr pix1 \<Rightarrow>
                 (case downscale L max_dimension pix1 of
                    Inl e \<Rightarrow> Inl (e, s1)
                  | Inr pix2 \<Rightarrow>
                      let s2 = s1\<lparr>calls := calls s1 @ [Encode xref pix2 quality]\<rparr> in
                      (case tobytes_jpg L pix2 quality of
                         Inl msg \<Rightarrow> Inl (FitzError msg, s2)
                       | Inr img_bytes \<Rightarrow>
                           let s3 = s2\<lparr>calls := calls s2 @ [Replace page xref img_bytes]\<rparr>;
                               s4 = (case replace_image L (doc s3) page xref img_bytes of
                                       Inl _ \<Rightarrow> s3
                                     | Inr d \<Rightarrow> s3\<lparr>doc := d\<rparr>)
                           in Inr (s4\<lparr>processed_xrefs := insert xref (processed_xrefs s4)\<rparr>)))))"

text \<open>\<^verbatim>\<open>for img in image_list\<close>.\<close>

fun process_images ::
  "'d fitz \<Rightarrow> int \<Rightarrow> int \<Rightarrow> nat \<Rightarrow> xref list \<Rightarrow> 'd state \<Rightarrow> (exn \<times> 'd state) + 'd state" where
  "process_images L quality max_dimension page [] s = Inr s"
| "process_images L quality max_dimension page (xref # image_list) s =
     (case process_image L quality max_dimension page xref s of
        Inl r \<Rightarrow> Inl r
      | Inr s' \<Rightarrow> process_images L quality max_dimension page image_list s')"

text \<open>One turn of the outer loop: the progress line, then the images of page \<open>i\<close>.\<close>

definition process_page ::
  "'d fitz \<Rightarrow> int \<Rightarrow> int \<Rightarrow> nat \<Rightarrow> nat \<Rightarrow> 'd state \<Rightarrow> (exn \<times> 'd state) + 'd state" where
  "process_page L quality max_dimension total_pages i s =
     (let s1 = s\<lparr>stdout := stdout s @
                   [''Processing page '' @ str_int (int i + 1) @ ''/'' @ str_int (int total_pages) @ ''...'']\<rparr>
      in process_images L quality max_dimension i (get_images L (doc s1) i) s1)"

text \<open>\<^verbatim>\<open>for i, page in enumerate(doc)\<close>.\<close>

fun process_pages ::
  "'d fitz \<Rightarrow> int \<Rightarrow> int \<Rightarrow> nat \<Rightarrow> nat list \<Rightarrow> 'd state \<Rightarrow> (exn \<times> 'd state) + 'd state" where
  "process_pages L quality max_dimension total_pages [] s = Inr s"
| "process_pages L quality max_dimension total_pages (i # rest) s =
     (case process_page L quality max_dimension total_pages i s of
        Inl r \<Rightarrow> Inl r
      | Inr s' \<Rightarrow> process_pages L quality max_dimension total_pages rest s')"

subsection \<open>The whole run (lines 29 to 92)\<close>

text \<open>Lines 89 to 92, from the two sizes \<^verbatim>\<open>os.path.getsize\<close> returned.\<close>

definition size_report :: "int \<Rightarrow> int \<Rightarrow> string list" where
  "size_report initial_size final_size =
     [''Original size: '' @ format_f 2 (fl (fl (of_int initial_size / 1024) / 1024)) @ '' MB'',
      ''Compressed size: '' @ format_f 2 (fl (fl (of_int final_size / 1024) / 1024)) @ '' MB''] @
     (if initial_size > 0 then
        [''Reduction: '' @
           format_f 1 (fl (fl (1 - fl (of_int final_size / of_int initial_size)) * 100)) @ ''%'']
      else [])"

definition getsize :: "filesystem \<Rightarrow> string \<Rightarrow> int" where
  "getsize fs path = (case fs path of None \<Rightarrow> 0 | Some content \<Rightarrow> int (length content))"

text \<open>
  What a call of \<^verbatim>\<open>compress_pdf\<close> leaves behind: the strings printed (one per \<^verbatim>\<open>print\<close>),
  the files, the exception it propagated if any, and the library calls of the per-image
  procedure.
\<close>

record run =
  printed :: "string list"
  files :: filesystem
  raised :: "exn option"
  trace :: "event list"

definition compress_pdf ::
  "'d fitz \<Rightarrow> filesystem \<Rightarrow> string \<Rightarrow> string \<Rightarrow> int \<Rightarrow> int \<Rightarrow> run" where
  "compress_pdf L fs input_path output_path quality max_dimension =
     (case fs input_path of
        None \<Rightarrow>
          \<lparr>printed = [''Error: File not found: '' @ input_path], files = fs,
           raised = None, trace = []\<rparr>
      | Some content \<Rightarrow>
          (case open_doc L content of
             Inl msg \<Rightarrow> \<lparr>printed = [], files = fs, raised = Some (FitzError msg), trace = []\<rparr>
           | Inr d \<Rightarrow>
               let total_pages = page_count L d;
                   s0 = \<lparr>doc = d, processed_xrefs = {}, stdout = [], calls = []\<rparr>
               in
               (case process_pages L quality max_dimension total_pages [0..<total_pages] s0 of
                  Inl (e, s) \<Rightarrow>
                    \<lparr>printed = stdout s, files = fs, raised = Some e, trace = calls s\<rparr>
                | Inr s \<Rightarrow>
                    let out = stdout s @ [CHR 0x0A # ''Saving compressed PDF...''] in
                    (case save L (doc s) of
                       Inl msg \<Rightarrow>
                         \<lparr>printed = out, files = fs, raised = Some (FitzError msg),
                          trace = calls s\<rparr>
                     | Inr written \<Rightarrow>
                         let fs' = fs(output_path \<mapsto> written);
                             initial_size = getsize fs' input_path;
                             final_size = getsize fs' output_path
                         in \<lparr>printed = out @ size_report initial_size final_size, files = fs',
                             raised = None, trace = calls s\<rparr>))))"

subsection \<open>The command line (lines 5 to 17 and 94 to 110)\<close>

text \<open>
  \<^verbatim>\<open>os.path.splitext\<close> on a POSIX path: the extension starts at the last dot of the last
  component, unless that component has only dots before it.
\<close>

fun rfind :: "char \<Rightarrow> string \<Rightarrow> int" where
  "rfind c [] = - 1"
| "rfind c (x # xs) =
     (let r = rfind c xs in if 0 \<le> r then r + 1 else if x = c then 0 else - 1)"

function has_name :: "string \<Rightarrow> int \<Rightarrow> int \<Rightarrow> bool" where
  "has_name p filenameIndex dotIndex =
     (if filenameIndex < dotIndex then
        if take 1 (drop (nat filenameIndex) p) \<noteq> ''.'' then True
        else has_name p (filenameIndex + 1) dotIndex
      else False)"
  by pat_completeness auto
termination
  by (relation "measure (\<lambda>(p, filenameIndex, dotIndex). nat (dotIndex - filenameIndex))") auto

declare has_name.simps [simp del]

definition splitext :: "string \<Rightarrow> string \<times> string" where
  "splitext p =
     (let sepIndex = rfind CHR ''/'' p; dotIndex = rfind CHR ''.'' p
      in if dotIndex > sepIndex \<and> has_name p (sepIndex + 1) dotIndex
         then (take (nat dotIndex) p, drop (nat dotIndex) p)
         else (p, []))"

text \<open>\<^verbatim>\<open>os.path.dirname\<close> on a POSIX path.\<close>

definition rstrip :: "char \<Rightarrow> string \<Rightarrow> string" where
  "rstrip c s = rev (dropWhile (\<lambda>x. x = c) (rev s))"

definition dirname :: "string \<Rightarrow> string" where
  "dirname p =
     (let i = rfind CHR ''/'' p + 1; head = take (nat i) p
      in if head \<noteq> [] \<and> head \<noteq> replicate (length head) CHR ''/'' then rstrip CHR ''/'' head
         else head)"

text \<open>The namespace \<^verbatim>\<open>parse_args\<close> returns.\<close>

record args =
  arg_input :: string
  arg_output :: "string option"
  arg_quality :: int
  arg_max_dim :: int

text \<open>Lines 103 to 108: \<^verbatim>\<open>not output_pdf\<close> holds for \<^verbatim>\<open>None\<close> and for the empty string.\<close>

definition output_pdf :: "args \<Rightarrow> string" where
  "output_pdf a =
     (case arg_output a of
        Some out \<Rightarrow>
          if out \<noteq> [] then out
          else (let (name, ext) = splitext (arg_input a) in name @ ''_compressed'' @ ext)
      | None \<Rightarrow> (let (name, ext) = splitext (arg_input a) in name @ ''_compressed'' @ ext))"

text \<open>
  The script as a process: what it printed, the files, and its exit status. \<open>fitz_ok\<close>
  says whether the import check of lines 5 to 9 passed; an exception that leaves
  \<^verbatim>\<open>compress_pdf\<close> ends the process with status 1.
\<close>

record process =
  printed_lines :: "string list"
  files_after :: filesystem
  exit_status :: int
  library_calls :: "event list"

definition main :: "bool \<Rightarrow> 'd fitz \<Rightarrow> filesystem \<Rightarrow> args \<Rightarrow> process" where
  "main fitz_ok L fs a =
     (if \<not> fitz_ok then
        \<lparr>printed_lines =
           [''Error: The 'fitz' module is not from PyMuPDF.'',
            ''It seems you might have installed the wrong 'fitz' package.'',
            ''Please run the following commands to fix it:'',
            ''  pip uninstall fitz'',
            ''  pip install pymupdf''],
         files_after = fs, exit_status = 1, library_calls = []\<rparr>
      else
        let r = compress_pdf L fs (arg_input a) (output_pdf a) (arg_quality a) (arg_max_dim a)
        in \<lparr>printed_lines = printed r, files_after = files r,
            exit_status = (case raised r of None \<Rightarrow> 0 | Some _ \<Rightarrow> 1),
            library_calls = trace r\<rparr>)"

subsection \<open>A library to run the script on concrete documents\<close>

text \<open>
  A small document type: the xrefs each page lists, the images that can be decoded, and
  the streams put in their place so far.
\<close>

record document =
  page_images :: "xref list list"
  objects :: "xref \<rightharpoonup> pixmap"
  streams :: "xref \<rightharpoonup> bytes"

text \<open>
  The library calls over that type, with the behaviour the PyMuPDF documentation gives
  them: \<^verbatim>\<open>Pixmap(doc, xref)\<close> raises for an xref that is no decodable image;
  \<^verbatim>\<open>Pixmap(cs, pix)\<close> returns a copy of the pixmap in colorspace \<open>cs\<close>;
  \<^verbatim>\<open>pix.shrink(n)\<close> divides width and height by \<open>2 ^ n\<close>, rounding up, and ignores
  \<open>n < 1\<close>; \<^verbatim>\<open>replace_image\<close> raises for an xref that is no image and otherwise stores the
  new stream under the same xref. The JPEG encoder and the serializer are stand-ins (the
  dimensions and the quality; four fixed bytes).
\<close>

definition pymupdf :: "document \<Rightarrow> document fitz" where
  "pymupdf d0 =
     \<lparr>open_doc = (\<lambda>content. Inr d0),
      page_count = (\<lambda>d. length (page_images d)),
      get_images = (\<lambda>d i. page_images d ! i),
      Pixmap_of_xref = (\<lambda>d x. case objects d x of
                                 None \<Rightarrow> Inl ''cannot load image''
                               | Some pix \<Rightarrow> Inr pix),
      Pixmap_convert = (\<lambda>cs pix. Inr (pix\<lparr>colorspace := Some cs\<rparr>)),
      shrink = (\<lambda>pix n. Inr (if n < 1 then pix
                              else pix\<lparr>width := (width pix + 2 ^ nat n - 1) div 2 ^ nat n,
                                       height := (height pix + 2 ^ nat n - 1) div 2 ^ nat n\<rparr>)),
      tobytes_jpg = (\<lambda>pix q. Inr [nat (width pix), nat (height pix), nat q]),
      replace_image = (\<lambda>d page x b. case objects d x of
                                      None \<Rightarrow> Inl ''xref not an image''
                                    | Some _ \<Rightarrow> Inr (d\<lparr>streams := (streams d)(x \<mapsto> b)\<rparr>)),
      save = (\<lambda>d. Inr [37, 80, 68, 70])\<rparr>"

text \<open>
  A document of one page with two images, of which xref 7 cannot be decoded; a document
  of two pages that list the same image; a document whose only image is an image mask of
  8 by 8, which has no colorspace; a document without images.
\<close>

definition small_rgb :: pixmap where
  "small_rgb = \<lparr>width = 100, height = 50, colorspace = Some csRGB, samples = []\<rparr>"

definition one_unreadable :: document where
  "one_unreadable = \<lparr>page_images = [[7, 8]], objects = [8 \<mapsto> small_rgb], streams = Map.empty\<rparr>"

definition shared_image :: document where
  "shared_image = \<lparr>page_images = [[7], [7]], objects = [7 \<mapsto> small_rgb], streams = Map.empty\<rparr>"

definition mask_only :: document where
  "mask_only =
     \<lparr>page_images = [[9]],
      objects = [9 \<mapsto> \<lparr>width = 8, height = 8, colorspace = None, samples = []\<rparr>],
      streams = Map.empty\<rparr>"

definition no_images :: document where
  "no_images = \<lparr>page_images = [], objects = Map.empty, streams = Map.empty\<rparr>"

text \<open>The library on the document without images, saving a file of 5242880 bytes.\<close>

definition halving :: "document fitz" where
  "halving = (pymupdf no_images)\<lparr>save := \<lambda>d. Inr (replicate 5242880 0)\<rparr>"



definition large_image :: pixmap where
  "large_image = \<lparr>width = 4000, height = 3000, colorspace = Some csRGB, samples = []\<rparr>"

definition one_large :: document where
  "one_large = \<lparr>page_images = [[5]], objects = [5 \<mapsto> large_image], streams = Map.empty\<rparr>"

subsection \<open>Observing a run\<close>

text \<open>
  How often a step of the per-image procedure was carried out for an xref: a successful
  materialization, a re-encoding, a replacement.
\<close>

datatype step_kind = Materialized | Encoded | Replaced

fun occurs :: "step_kind \<Rightarrow> xref \<Rightarrow> event \<Rightarrow> bool" where
  "occurs Materialized x (Materialize y ok) = (ok \<and> y = x)"
| "occurs Encoded x (Encode y pix q) = (y = x)"
| "occurs Replaced x (Replace page y b) = (y = x)"
| "occurs k x e = False"

definition times :: "step_kind \<Rightarrow> xref \<Rightarrow> event list \<Rightarrow> nat" where
  "times k x tr = length (filter (occurs k x) tr)"

text \<open>
  The invariant of the two loops: no step was carried out twice for an xref, and none at
  all for an xref outside the processed-set.
\<close>

definition once :: "'d state \<Rightarrow> bool" where
  "once s \<longleftrightarrow>
     (\<forall>k x. times k x (calls s) \<le> 1 \<and> (x \<notin> processed_xrefs s \<longrightarrow> times k x (calls s) = 0))"

text \<open>
  A library is stable when a replacement keeps the image lists of the pages and what
  materializing any other xref gives. A state agrees with the opened document \<open>d\<close> when
  its document has the image lists of \<open>d\<close> and materializes the xrefs outside the
  processed-set as \<open>d\<close> does.
\<close>

definition stable :: "'d fitz \<Rightarrow> bool" where
  "stable L \<longleftrightarrow>
     (\<forall>d page x b d'. replace_image L d page x b = Inr d' \<longrightarrow>
        get_images L d' = get_images L d \<and>
        (\<forall>y. y \<noteq> x \<longrightarrow> Pixmap_of_xref L d' y = Pixmap_of_xref L d y))"

definition agrees :: "'d fitz \<Rightarrow> 'd \<Rightarrow> 'd state \<Rightarrow> bool" where
  "agrees L d s \<longleftrightarrow>
     get_images L (doc s) = get_images L d \<and>
     (\<forall>y. y \<notin> processed_xrefs s \<longrightarrow> Pixmap_of_xref L (doc s) y = Pixmap_of_xref L d y)"




text \<open>The digits a formatted number has after its decimal point.\<close>

definition decimals :: "string \<Rightarrow> string" where
  "decimals s = drop 1 (dropWhile (\<lambda>c. c \<noteq> CHR ''.'') s)"

section \<open>Properties\<close>

subsection \<open>The loops\<close>

text \<open>
  An invariant of the loop body that holds before the first image holds when the loops
  end, and what it gives at an exception holds of any exception leaving the loops.
\<close>

lemma process_image_skip:
  "xref \<in> processed_xrefs s \<Longrightarrow> process_image L q m page xref s = Inr s"
  by (simp add: process_image_def)

lemma process_images_rule:
  assumes "I s"
      and "\<And>x s s'. I s \<Longrightarrow> process_image L q m page x s = Inr s' \<Longrightarrow> I s'"
      and "\<And>x s e s'. I s \<Longrightarrow> process_image L q m page x s = Inl (e, s') \<Longrightarrow> Q e s'"
  shows "case process_images L q m page xs s of Inl (e, s') \<Rightarrow> Q e s' | Inr s' \<Rightarrow> I s'"
  using assms(1)
proof (induction xs arbitrary: s)
  case Nil
  then show ?case by simp
next
  case (Cons x xs)
  show ?case
  proof (cases "process_image L q m page x s")
    case (Inl r)
    obtain e s' where "r = (e, s')" by (cases r)
    with Inl Cons.prems assms(3) show ?thesis by simp
  next
    case (Inr s')
    with Cons.prems assms(2) have "I s'" by blast
    from Cons.IH [OF this] Inr show ?thesis by simp
  qed
qed

lemma process_pages_rule:
  assumes "I s"
      and "\<And>s out. I s \<Longrightarrow> I (s\<lparr>stdout := out\<rparr>)"
      and "\<And>page x s s'. I s \<Longrightarrow> process_image L q m page x s = Inr s' \<Longrightarrow> I s'"
      and "\<And>page x s e s'. I s \<Longrightarrow> process_image L q m page x s = Inl (e, s') \<Longrightarrow> Q e s'"
  shows "case process_pages L q m tp pages s of Inl (e, s') \<Rightarrow> Q e s' | Inr s' \<Rightarrow> I s'"
  using assms(1)
proof (induction pages arbitrary: s)
  case Nil
  then show ?case by simp
next
  case (Cons i pages)
  let ?s1 = "s\<lparr>stdout := stdout s @
               [''Processing page '' @ str_int (int i + 1) @ ''/'' @ str_int (int tp) @ ''...'']\<rparr>"
  have I1: "I ?s1" using Cons.prems assms(2) by blast
  have page: "case process_images L q m i (get_images L (doc ?s1) i) ?s1 of
                Inl (e, s') \<Rightarrow> Q e s' | Inr s' \<Rightarrow> I s'"
    by (rule process_images_rule [where I = I, OF I1]) (use assms(3,4) in blast)+
  show ?case
  proof (cases "process_page L q m tp i s")
    case (Inl r)
    with page show ?thesis by (simp add: process_page_def Let_def)
  next
    case (Inr s')
    with page have "I s'" by (simp add: process_page_def Let_def)
    from Cons.IH [OF this] Inr show ?thesis by simp
  qed
qed



subsection \<open>A missing input file\<close>

text \<open>
  Claim C6. When the input path does not exist, the tool prints one error line naming the
  path, leaves the files as they are (no output file), makes no library call, and the
  process ends with status 0; when the import check fails, the status is 1.
\<close>

theorem missing_input_file:
  "fs (arg_input a) = None \<Longrightarrow>
     main True L fs a =
       \<lparr>printed_lines = [''Error: File not found: '' @ arg_input a], files_after = fs,
        exit_status = 0, library_calls = []\<rparr>
     \<and> exit_status (main False L fs a) = 1"
  by (simp add: main_def compress_pdf_def)

theorem missing_input_file_witness:
  "main True (pymupdf \<lparr>page_images = [], objects = Map.empty, streams = Map.empty\<rparr>) Map.empty
     \<lparr>arg_input = ''a.pdf'', arg_output = None, arg_quality = 30, arg_max_dim = 2000\<rparr> =
       \<lparr>printed_lines = [''Error: File not found: a.pdf''], files_after = Map.empty,
        exit_status = 0, library_calls = []\<rparr>"
  using missing_input_file [of Map.empty
     "\<lparr>arg_input = ''a.pdf'', arg_output = None, arg_quality = 30, arg_max_dim = 2000\<rparr>"
     "pymupdf \<lparr>page_images = [], objects = Map.empty, streams = Map.empty\<rparr>"]
  by simp

subsection \<open>Each image once\<close>

lemma times_append: "times k x (tr @ tr') = times k x tr + times k x tr'"
  by (simp add: times_def)

lemma times_step:
  "times k y [Materialize x ok] \<le> 1"
  "times k y [Materialize x False] = 0"
  "times k y [Materialize x True, Encode x pix q] \<le> 1"
  "times k y [Materialize x True, Encode x pix q, Replace page x b] \<le> 1"
  "y \<noteq> x \<Longrightarrow> times k y [Materialize x True, Encode x pix q, Replace page x b] = 0"
  by (cases k; simp add: times_def)+

lemma once_step:
  assumes "once s" and "process_image L q m page x s = Inr s'"
  shows "once s'"
proof (cases "x \<in> processed_xrefs s")
  case True
  with assms show ?thesis by (simp add: process_image_def)
next
  case False
  with assms(1) have zero: "\<And>k. times k x (calls s) = 0" by (simp add: once_def)
  from assms(1) have le: "\<And>k y. times k y (calls s) \<le> 1"
    and out: "\<And>k y. y \<notin> processed_xrefs s \<Longrightarrow> times k y (calls s) = 0"
    by (simp_all add: once_def)
  show ?thesis
  proof (cases "Pixmap_of_xref L (doc s) x")
    case (Inl msg)
    with False assms(2) have s': "s' = s\<lparr>calls := calls s @ [Materialize x False]\<rparr>"
      by (simp add: process_image_def)
    show ?thesis
      unfolding once_def s' using le out by (simp add: times_append times_step)
  next
    case (Inr pix)
    with False assms(2) obtain pix2 b where
      calls: "calls s' = calls s @ [Materialize x True, Encode x pix2 q, Replace page x b]"
      and proc: "processed_xrefs s' = insert x (processed_xrefs s)"
      by (auto simp: process_image_def Let_def split: sum.splits)
    show ?thesis
      unfolding once_def
    proof (intro allI conjI impI)
      fix k y
      show "times k y (calls s') \<le> 1"
      proof (cases "y = x")
        case True
        then show ?thesis using zero [of k] times_step(4) [of k x x pix2 q page b]
          by (simp add: calls times_append)
      next
        case False
        then show ?thesis using le [of k y] times_step(5) [of y x k pix2 q page b]
          by (simp add: calls times_append)
      qed
    next
      fix k y
      assume "y \<notin> processed_xrefs s'"
      then have "y \<noteq> x" "y \<notin> processed_xrefs s" by (auto simp: proc)
      then show "times k y (calls s') = 0"
        using out [of y k] times_step(5) [of y x k pix2 q page b]
        by (simp add: calls times_append)
    qed
  qed
qed

lemma once_abort:
  assumes "once s" and "process_image L q m page x s = Inl (e, s')"
  shows "\<forall>k y. times k y (calls s') \<le> 1"
proof -
  from assms(2) have notin: "x \<notin> processed_xrefs s"
    by (auto simp: process_image_def split: if_splits)
  with assms(1) have zero: "\<And>k. times k x (calls s) = 0" by (simp add: once_def)
  from assms(1) have le: "\<And>k y. times k y (calls s) \<le> 1" by (simp add: once_def)
  from assms(2) notin obtain tr where
    calls: "calls s' = calls s @ tr"
    and tr: "tr = [Materialize x True] \<or> (\<exists>pix2. tr = [Materialize x True, Encode x pix2 q])"
    by (auto simp: process_image_def Let_def split: sum.splits)
  have new: "\<And>k y. times k y tr \<le> 1" "\<And>k y. y \<noteq> x \<Longrightarrow> times k y tr = 0"
    using tr by (auto simp: times_def; (case_tac k; simp))+
  show ?thesis
  proof (intro allI)
    fix k y
    show "times k y (calls s') \<le> 1"
      using zero [of k] le [of k y] new(1) [of k y] new(2) [of y k]
      by (cases "y = x") (simp_all add: calls times_append)
  qed
qed


lemma once_run:
  "\<forall>k x. times k x (trace (compress_pdf L fs inp out q m)) \<le> 1"
proof (cases "fs inp")
  case None
  then show ?thesis by (simp add: compress_pdf_def times_def)
next
  case (Some content)
  show ?thesis
  proof (cases "open_doc L content")
    case (Inl msg)
    with Some show ?thesis by (simp add: compress_pdf_def times_def)
  next
    case (Inr d)
    let ?s0 = "\<lparr>doc = d, processed_xrefs = {}, stdout = [], calls = []\<rparr>"
    have "once ?s0" by (simp add: once_def times_def)
    then have loop: "case process_pages L q m (page_count L d) [0..<page_count L d] ?s0 of
                 Inl (e, s') \<Rightarrow> \<forall>k x. times k x (calls s') \<le> 1 | Inr s' \<Rightarrow> once s'"
    proof (rule process_pages_rule)
      show "\<And>s out. once s \<Longrightarrow> once (s\<lparr>stdout := out\<rparr>)" by (simp add: once_def)
    qed (use once_step once_abort in blast)+
    show ?thesis
    proof (cases "process_pages L q m (page_count L d) [0..<page_count L d] ?s0")
      case (Inl r)
      with loop Some Inr show ?thesis
        by (cases r) (simp add: compress_pdf_def)
    next
      case run: (Inr s)
      with loop have "\<forall>k x. times k x (calls s) \<le> 1" by (simp add: once_def)
      with run Some Inr show ?thesis
        by (cases "save L (doc s)") (simp_all add: compress_pdf_def Let_def)
    qed
  qed
qed

lemma times_present: "e \<in> set tr \<Longrightarrow> occurs k x e \<Longrightarrow> 1 \<le> times k x tr"
proof -
  assume "e \<in> set tr" "occurs k x e"
  then have "e \<in> set (filter (occurs k x) tr)" by simp
  then have "0 < length (filter (occurs k x) tr)" by (rule length_pos_if_in_set)
  then show ?thesis unfolding times_def by (simp add: Suc_le_eq)
qed

lemma through_step:
  assumes "\<forall>y. Materialize y True \<in> set (calls s) \<longrightarrow>
             1 \<le> times Encoded y (calls s) \<and> 1 \<le> times Replaced y (calls s)"
      and "process_image L q m page x s = Inr s'"
  shows "\<forall>y. Materialize y True \<in> set (calls s') \<longrightarrow>
           1 \<le> times Encoded y (calls s') \<and> 1 \<le> times Replaced y (calls s')"
proof (cases "x \<in> processed_xrefs s")
  case True
  with assms show ?thesis by (simp add: process_image_def)
next
  case False
  show ?thesis
  proof (cases "Pixmap_of_xref L (doc s) x")
    case (Inl msg)
    with False assms(2) have "calls s' = calls s @ [Materialize x False]"
      by (auto simp: process_image_def)
    with assms(1) show ?thesis by (auto simp: times_append)
  next
    case (Inr pix)
    with False assms(2) obtain buf b where
      calls: "calls s' = calls s @ [Materialize x True, Encode x buf q, Replace page x b]"
      by (auto simp: process_image_def Let_def split: sum.splits)
    have new: "times Encoded x [Materialize x True, Encode x buf q, Replace page x b] = 1"
      "times Replaced x [Materialize x True, Encode x buf q, Replace page x b] = 1"
      by (simp_all add: times_def)
    show ?thesis
    proof (intro allI impI)
      fix y
      assume "Materialize y True \<in> set (calls s')"
      then consider "Materialize y True \<in> set (calls s)" | "y = x" by (auto simp: calls)
      then show "1 \<le> times Encoded y (calls s') \<and> 1 \<le> times Replaced y (calls s')"
      proof cases
        case 1
        with assms(1) show ?thesis by (simp add: calls times_append trans_le_add1)
      next
        case 2
        with new show ?thesis by (simp add: calls times_append)
      qed
    qed
  qed
qed

lemma through_run:
  assumes "raised (compress_pdf L fs inp out q m) = None"
      and "Materialize x True \<in> set (trace (compress_pdf L fs inp out q m))"
  shows "1 \<le> times Encoded x (trace (compress_pdf L fs inp out q m)) \<and>
         1 \<le> times Replaced x (trace (compress_pdf L fs inp out q m))"
proof (cases "fs inp")
  case None
  with assms(2) show ?thesis by (simp add: compress_pdf_def)
next
  case (Some content)
  show ?thesis
  proof (cases "open_doc L content")
    case (Inl msg)
    with Some assms(2) show ?thesis by (simp add: compress_pdf_def)
  next
    case (Inr d)
    let ?s0 = "\<lparr>doc = d, processed_xrefs = {}, stdout = [], calls = []\<rparr>"
    let ?I = "\<lambda>s. \<forall>y. Materialize y True \<in> set (calls s) \<longrightarrow>
                1 \<le> times Encoded y (calls s) \<and> 1 \<le> times Replaced y (calls s)"
    have "?I ?s0" by simp
    then have loop: "case process_pages L q m (page_count L d) [0..<page_count L d] ?s0 of
                 Inl (e, s') \<Rightarrow> True | Inr s' \<Rightarrow> ?I s'"
    proof (rule process_pages_rule [where I = ?I])
      show "\<And>s out. ?I s \<Longrightarrow> ?I (s\<lparr>stdout := out\<rparr>)" by simp
      show "\<And>page x s s'. ?I s \<Longrightarrow> process_image L q m page x s = Inr s' \<Longrightarrow> ?I s'"
        by (rule through_step)
    qed simp
    show ?thesis
    proof (cases "process_pages L q m (page_count L d) [0..<page_count L d] ?s0")
      case (Inl r)
      with Some Inr assms(1) show ?thesis by (cases r) (simp add: compress_pdf_def)
    next
      case run: (Inr s)
      with loop have I: "?I s" by simp
      show ?thesis
      proof (cases "save L (doc s)")
        case (Inl msg)
        with Some Inr run assms(1) show ?thesis by (simp add: compress_pdf_def Let_def)
      next
        case saved: (Inr written)
        with Some Inr run have "trace (compress_pdf L fs inp out q m) = calls s"
          by (simp add: compress_pdf_def Let_def)
        with I assms(2) show ?thesis by simp
      qed
    qed
  qed
qed

text \<open>
  Claim C5, as amended. Within one pass over a document, every xref that is materialized,
  also one that two or more pages list, goes through the procedure (materialize, convert,
  downscale, re-encode, replace) exactly once when the run completes, and in no run is a
  step carried out twice for an xref: an xref that is in the processed-set is skipped with
  the state unchanged, so no image is compressed twice. An xref whose materialization
  fails is left out of the processed-set, with only the failed attempt made, so each
  later reference attempts the materialization again.
\<close>

theorem each_image_once:
  "(xref \<in> processed_xrefs s \<longrightarrow> process_image L q m page xref s = Inr s) \<and>
   (xref \<notin> processed_xrefs s \<and> Pixmap_of_xref L (doc s) xref = Inl msg \<longrightarrow>
      process_image L q m page xref s = Inr (s\<lparr>calls := calls s @ [Materialize xref False]\<rparr>)) \<and>
   times Materialized xref (trace (compress_pdf L fs inp out q m)) \<le> 1 \<and>
   times Encoded xref (trace (compress_pdf L fs inp out q m)) \<le> 1 \<and>
   times Replaced xref (trace (compress_pdf L fs inp out q m)) \<le> 1 \<and>
   (raised (compress_pdf L fs inp out q m) = None \<and>
    Materialize xref True \<in> set (trace (compress_pdf L fs inp out q m)) \<longrightarrow>
      times Materialized xref (trace (compress_pdf L fs inp out q m)) = 1 \<and>
      times Encoded xref (trace (compress_pdf L fs inp out q m)) = 1 \<and>
      times Replaced xref (trace (compress_pdf L fs inp out q m)) = 1)"
proof -
  let ?tr = "trace (compress_pdf L fs inp out q m)"
  have le: "times k xref ?tr \<le> 1" for k
    using once_run [of L fs inp out q m] by simp
  have "times Materialized xref ?tr = 1 \<and> times Encoded xref ?tr = 1 \<and> times Replaced xref ?tr = 1"
    if "raised (compress_pdf L fs inp out q m) = None" "Materialize xref True \<in> set ?tr"
  proof -
    from times_present [OF that(2), of Materialized xref]
    have "1 \<le> times Materialized xref ?tr" by simp
    with through_run [OF that] le [of Materialized] le [of Encoded] le [of Replaced]
    show ?thesis by simp
  qed
  with le show ?thesis by (simp add: process_image_def)
qed

theorem each_image_once_witness:
  "times Materialized 7
     (trace (compress_pdf (pymupdf shared_image) [''in.pdf'' \<mapsto> [1, 2, 3]] ''in.pdf'' ''out.pdf''
        30 2000)) = 1 \<and>
   times Encoded 7
     (trace (compress_pdf (pymupdf shared_image) [''in.pdf'' \<mapsto> [1, 2, 3]] ''in.pdf'' ''out.pdf''
        30 2000)) = 1 \<and>
   times Replaced 7
     (trace (compress_pdf (pymupdf shared_image) [''in.pdf'' \<mapsto> [1, 2, 3]] ''in.pdf'' ''out.pdf''
        30 2000)) = 1 \<and>
   process_image (pymupdf shared_image) 30 2000 1 7
     \<lparr>doc = shared_image, processed_xrefs = {7}, stdout = [], calls = []\<rparr> =
     Inr \<lparr>doc = shared_image, processed_xrefs = {7}, stdout = [], calls = []\<rparr> \<and>
   process_image (pymupdf shared_image) 30 2000 0 9
     \<lparr>doc = shared_image, processed_xrefs = {}, stdout = [], calls = []\<rparr> =
     Inr \<lparr>doc = shared_image, processed_xrefs = {}, stdout = [], calls = [Materialize 9 False]\<rparr>"
proof -
  let ?L = "pymupdf shared_image"
  let ?r = "compress_pdf ?L [''in.pdf'' \<mapsto> [1, 2, 3]] ''in.pdf'' ''out.pdf'' 30 2000"
  have tr: "trace ?r = [Materialize 7 True, Encode 7 small_rgb 30, Replace 0 7 [100, 50, 30]]"
    by (simp add: compress_pdf_def process_page_def process_image_def pymupdf_def shared_image_def
        small_rgb_def normalize_colorspace_def downscale_def csRGB_def Let_def)
  have ok: "raised ?r = None"
    by (simp add: compress_pdf_def process_page_def process_image_def pymupdf_def shared_image_def
        small_rgb_def normalize_colorspace_def downscale_def csRGB_def Let_def)
  have fails: "Pixmap_of_xref ?L shared_image 9 = Inl ''cannot load image''"
    by (simp add: pymupdf_def shared_image_def)
  show ?thesis
    using each_image_once [where xref = 7 and L = ?L and q = 30 and m = 2000 and page = 1
        and s = "\<lparr>doc = shared_image, processed_xrefs = {7}, stdout = [], calls = []\<rparr>"
        and fs = "[''in.pdf'' \<mapsto> [1, 2, 3]]" and inp = "''in.pdf''" and out = "''out.pdf''"]
      each_image_once [where xref = 9 and L = ?L and q = 30 and m = 2000 and page = 0
        and s = "\<lparr>doc = shared_image, processed_xrefs = {}, stdout = [], calls = []\<rparr>"
        and msg = "''cannot load image''"
        and fs = "[''in.pdf'' \<mapsto> [1, 2, 3]]" and inp = "''in.pdf''" and out = "''out.pdf''"]
      ok fails
    unfolding tr by (simp add: times_def)
qed


text \<open>
  The claim as stated (the procedure runs exactly once per xref) fails for an unreadable
  image that two pages list: it is materialized twice and never compressed.
\<close>

theorem unreadable_image_materialized_twice:
  "trace (compress_pdf
        (pymupdf \<lparr>page_images = [[7], [7]], objects = Map.empty, streams = Map.empty\<rparr>)
        [''in.pdf'' \<mapsto> [1, 2, 3]] ''in.pdf'' ''out.pdf'' 30 2000) =
   [Materialize 7 False, Materialize 7 False]"
  by (simp add: compress_pdf_def process_page_def process_image_def pymupdf_def Let_def)

subsection \<open>Marking an image as processed\<close>

text \<open>
  Claim C2, as amended. For every xref that passes the processed-set check and whose turn
  of the loop ends without an exception, the xref is put into the processed-set exactly
  when its pixel data could be materialized, whatever the replacement did; when the
  materialization fails, the processed-set stays as it was and the loop goes on with the
  next image.
\<close>

theorem marked_iff_materialized:
  assumes "xref \<notin> processed_xrefs s"
      and "process_image L q m page xref s = Inr s'"
  shows "processed_xrefs s' =
           (case Pixmap_of_xref L (doc s) xref of
              Inl msg \<Rightarrow> processed_xrefs s
            | Inr pix \<Rightarrow> insert xref (processed_xrefs s))"
  using assms
  by (auto simp: process_image_def Let_def split: sum.splits)

theorem marked_iff_materialized_witness:
  "7 \<notin> processed_xrefs
         \<lparr>doc = \<lparr>page_images = [[7]], objects = Map.empty, streams = Map.empty\<rparr>,
          processed_xrefs = {}, stdout = [], calls = []\<rparr> \<and>
   process_image (pymupdf \<lparr>page_images = [[7]], objects = Map.empty, streams = Map.empty\<rparr>)
       30 2000 0 7
       \<lparr>doc = \<lparr>page_images = [[7]], objects = Map.empty, streams = Map.empty\<rparr>,
        processed_xrefs = {}, stdout = [], calls = []\<rparr> =
     Inr \<lparr>doc = \<lparr>page_images = [[7]], objects = Map.empty, streams = Map.empty\<rparr>,
          processed_xrefs = {}, stdout = [], calls = [Materialize 7 False]\<rparr> \<and>
   processed_xrefs
     \<lparr>doc = \<lparr>page_images = [[7]], objects = Map.empty, streams = Map.empty\<rparr>,
      processed_xrefs = {}, stdout = [], calls = [Materialize 7 False]\<rparr> = {}"
  using marked_iff_materialized
    [where xref = 7 and q = 30 and m = 2000 and page = 0
       and L = "pymupdf \<lparr>page_images = [[7]], objects = Map.empty, streams = Map.empty\<rparr>"
       and s = "\<lparr>doc = \<lparr>page_images = [[7]], objects = Map.empty, streams = Map.empty\<rparr>,
                 processed_xrefs = {}, stdout = [], calls = []\<rparr>"
       and s' = "\<lparr>doc = \<lparr>page_images = [[7]], objects = Map.empty, streams = Map.empty\<rparr>,
                  processed_xrefs = {}, stdout = [], calls = [Materialize 7 False]\<rparr>"]
  by (simp add: process_image_def pymupdf_def)

text \<open>
  The claim as stated (the xref is recorded also when the materialization fails) does not
  hold: after the failure the processed-set is still empty.
\<close>

theorem unreadable_image_not_marked:
  "process_image (pymupdf \<lparr>page_images = [[7]], objects = Map.empty, streams = Map.empty\<rparr>)
       30 2000 0 7
       \<lparr>doc = \<lparr>page_images = [[7]], objects = Map.empty, streams = Map.empty\<rparr>,
        processed_xrefs = {}, stdout = [], calls = []\<rparr> =
     Inr \<lparr>doc = \<lparr>page_images = [[7]], objects = Map.empty, streams = Map.empty\<rparr>,
          processed_xrefs = {}, stdout = [], calls = [Materialize 7 False]\<rparr>"
  by (simp add: process_image_def pymupdf_def)

subsection \<open>A failed replacement\<close>

text \<open>
  Claim C8. When \<^verbatim>\<open>replace_image\<close> raises for an image, the exception is swallowed: the
  document is the one before the attempt, the xref is put into the processed-set, and the
  loop goes on with the next image.
\<close>

theorem failed_replacement_leaves_document:
  assumes "xref \<notin> processed_xrefs s"
      and "Pixmap_of_xref L (doc s) xref = Inr pix"
      and "normalize_colorspace L pix = Inr rgb"
      and "downscale L m rgb = Inr buf"
      and "tobytes_jpg L buf q = Inr img_bytes"
      and "replace_image L (doc s) page xref img_bytes = Inl msg"
  shows "\<exists>s'. process_image L q m page xref s = Inr s' \<and>
              doc s' = doc s \<and>
              processed_xrefs s' = insert xref (processed_xrefs s) \<and>
              process_images L q m page (xref # image_list) s =
                process_images L q m page image_list s'"
  using assms by (simp add: process_image_def Let_def)

theorem failed_replacement_leaves_document_witness:
  "doc (projr (process_image
       ((pymupdf \<lparr>page_images = [[8]],
                  objects = [8 \<mapsto> \<lparr>width = 100, height = 50, colorspace = Some csRGB, samples = []\<rparr>],
                  streams = Map.empty\<rparr>)
          \<lparr>replace_image := \<lambda>d page x b. Inl ''unsupported image''\<rparr>)
       30 2000 0 8
       \<lparr>doc = \<lparr>page_images = [[8]],
                objects = [8 \<mapsto> \<lparr>width = 100, height = 50, colorspace = Some csRGB, samples = []\<rparr>],
                streams = Map.empty\<rparr>,
        processed_xrefs = {}, stdout = [], calls = []\<rparr>)) =
     \<lparr>page_images = [[8]],
      objects = [8 \<mapsto> \<lparr>width = 100, height = 50, colorspace = Some csRGB, samples = []\<rparr>],
      streams = Map.empty\<rparr>"
  using failed_replacement_leaves_document
    [where xref = 8 and q = 30 and m = 2000 and page = 0 and image_list = "[]"
       and L = "(pymupdf \<lparr>page_images = [[8]],
                  objects = [8 \<mapsto> \<lparr>width = 100, height = 50, colorspace = Some csRGB, samples = []\<rparr>],
                  streams = Map.empty\<rparr>)
          \<lparr>replace_image := \<lambda>d page x b. Inl ''unsupported image''\<rparr>"
       and s = "\<lparr>doc = \<lparr>page_images = [[8]],
                objects = [8 \<mapsto> \<lparr>width = 100, height = 50, colorspace = Some csRGB, samples = []\<rparr>],
                streams = Map.empty\<rparr>,
        processed_xrefs = {}, stdout = [], calls = []\<rparr>"
       and pix = "\<lparr>width = 100, height = 50, colorspace = Some csRGB, samples = []\<rparr>"
       and rgb = "\<lparr>width = 100, height = 50, colorspace = Some csRGB, samples = []\<rparr>"
       and buf = "\<lparr>width = 100, height = 50, colorspace = Some csRGB, samples = []\<rparr>"
       and img_bytes = "[100, 50, 30]" and msg = "''unsupported image''"]
  by (auto simp: pymupdf_def normalize_colorspace_def downscale_def csRGB_def)

subsection \<open>Faults of a single image\<close>


lemma agrees_step:
  assumes "stable L" and "agrees L d s" and "process_image L q m page x s = Inr s'"
  shows "agrees L d s'"
proof (cases "x \<in> processed_xrefs s")
  case True
  with assms show ?thesis by (simp add: process_image_def)
next
  case False
  show ?thesis
  proof (cases "Pixmap_of_xref L (doc s) x")
    case (Inl msg)
    with False assms(2,3) show ?thesis by (auto simp: process_image_def agrees_def)
  next
    case (Inr pix)
    with False assms(3) obtain rgb buf b where ok: "normalize_colorspace L pix = Inr rgb"
      "downscale L m rgb = Inr buf" "tobytes_jpg L buf q = Inr b"
      by (auto simp: process_image_def Let_def split: sum.splits)
    with False Inr assms(3) have
      proc: "processed_xrefs s' = insert x (processed_xrefs s)" and
      d': "doc s' = (case replace_image L (doc s) page x b of Inl msg \<Rightarrow> doc s | Inr d' \<Rightarrow> d')"
      by (auto simp: process_image_def Let_def split: sum.splits)
    show ?thesis
    proof (cases "replace_image L (doc s) page x b")
      case (Inl msg)
      with d' proc assms(2) show ?thesis by (simp add: agrees_def)
    next
      case new: (Inr d'')
      with assms(1) have "get_images L d'' = get_images L (doc s)"
        and "\<forall>y. y \<noteq> x \<longrightarrow> Pixmap_of_xref L d'' y = Pixmap_of_xref L (doc s) y"
        unfolding stable_def by blast+
      with new d' proc assms(2) show ?thesis by (simp add: agrees_def)
    qed
  qed
qed




lemma stable_pymupdf: "stable (pymupdf d0)"
  by (auto simp: stable_def pymupdf_def split: option.splits)




text \<open>In that run the unreadable image 7 is skipped and image 8 is compressed.\<close>

lemma one_unreadable_trace:
  "trace (compress_pdf (pymupdf one_unreadable) [''in.pdf'' \<mapsto> [1, 2, 3]] ''in.pdf'' ''out.pdf''
     30 2000) =
     [Materialize 7 False, Materialize 8 True, Encode 8 small_rgb 30, Replace 0 8 [100, 50, 30]]"
  by (simp add: compress_pdf_def process_page_def process_image_def pymupdf_def
      one_unreadable_def small_rgb_def normalize_colorspace_def downscale_def csRGB_def Let_def)



subsection \<open>A zero \<^verbatim>\<open>max_dimension\<close>\<close>

lemma downscale_defined:
  "1 \<le> m \<Longrightarrow> downscale L m pix \<noteq> Inl ZeroDivisionError"
  by (auto simp: downscale_def Let_def split: sum.splits)

lemma downscale_zero:
  "0 < max (width pix) (height pix) \<Longrightarrow> downscale L 0 pix = Inl ZeroDivisionError"
  by (simp add: downscale_def)

lemma target_step:
  assumes "stable L" and "agrees L d s"
      and target: "Pixmap_of_xref L d t = Inr pix"
        "\<forall>rgb. normalize_colorspace L pix = Inr rgb \<longrightarrow> 0 < max (width rgb) (height rgb)"
      and "t \<notin> processed_xrefs s"
      and run: "process_image L q 0 page x s = Inr s'"
  shows "agrees L d s' \<and> t \<notin> processed_xrefs s' \<and> x \<noteq> t"
proof -
  have "x \<noteq> t"
  proof
    assume "x = t"
    with assms(2,5) target(1) have pix: "Pixmap_of_xref L (doc s) x = Inr pix"
      by (simp add: agrees_def)
    show False
    proof (cases "normalize_colorspace L pix")
      case (Inl e)
      with pix run \<open>x = t\<close> assms(5) show False by (simp add: process_image_def)
    next
      case (Inr rgb)
      with target(2) have "downscale L 0 rgb = Inl ZeroDivisionError"
        by (simp add: downscale_def)
      with Inr pix run \<open>x = t\<close> assms(5) show False by (simp add: process_image_def)
    qed
  qed
  moreover have "processed_xrefs s' \<subseteq> insert x (processed_xrefs s)"
    using run by (auto simp: process_image_def Let_def split: if_splits sum.splits)
  ultimately show ?thesis
    using agrees_step [OF assms(1,2) run] assms(5) by auto
qed

lemma target_images:
  assumes "stable L"
      and target: "Pixmap_of_xref L d t = Inr pix"
        "\<forall>rgb. normalize_colorspace L pix = Inr rgb \<longrightarrow> 0 < max (width rgb) (height rgb)"
  shows "agrees L d s \<Longrightarrow> t \<notin> processed_xrefs s \<Longrightarrow>
         process_images L q 0 page xs s = Inr s' \<Longrightarrow>
           agrees L d s' \<and> t \<notin> processed_xrefs s' \<and> t \<notin> set xs"
proof (induction xs arbitrary: s)
  case Nil
  then show ?case by simp
next
  case (Cons x xs)
  from Cons.prems(3) obtain s1 where
    one: "process_image L q 0 page x s = Inr s1" and
    rest: "process_images L q 0 page xs s1 = Inr s'"
    by (auto split: sum.splits)
  from target_step [OF assms(1) Cons.prems(1) target Cons.prems(2) one]
  have s1: "agrees L d s1" "t \<notin> processed_xrefs s1" and x: "x \<noteq> t" by simp_all
  from Cons.IH [OF s1 rest] x show ?case by auto
qed

lemma target_pages:
  assumes "stable L"
      and target: "Pixmap_of_xref L d t = Inr pix"
        "\<forall>rgb. normalize_colorspace L pix = Inr rgb \<longrightarrow> 0 < max (width rgb) (height rgb)"
  shows "agrees L d s \<Longrightarrow> t \<notin> processed_xrefs s \<Longrightarrow>
         process_pages L q 0 tp pages s = Inr s' \<Longrightarrow>
           (\<forall>i \<in> set pages. t \<notin> set (get_images L d i))"
proof (induction pages arbitrary: s)
  case Nil
  then show ?case by simp
next
  case (Cons i pages)
  from Cons.prems(3) obtain s1 where
    one: "process_page L q 0 tp i s = Inr s1" and
    rest: "process_pages L q 0 tp pages s1 = Inr s'"
    by (auto split: sum.splits)
  let ?s = "s\<lparr>stdout := stdout s @
              [''Processing page '' @ str_int (int i + 1) @ ''/'' @ str_int (int tp) @ ''...'']\<rparr>"
  have a: "agrees L d ?s" "t \<notin> processed_xrefs ?s"
    using Cons.prems(1,2) by (simp_all add: agrees_def)
  have "get_images L (doc ?s) i = get_images L d i"
    using Cons.prems(1) by (simp add: agrees_def)
  with one have imgs: "process_images L q 0 i (get_images L d i) ?s = Inr s1"
    by (simp add: process_page_def Let_def)
  from target_images [OF assms a imgs]
  have s1: "agrees L d s1" "t \<notin> processed_xrefs s1" and here: "t \<notin> set (get_images L d i)"
    by simp_all
  from Cons.IH [OF s1 rest] here show ?case by simp
qed

lemma only_the_division_raises:
  assumes "agrees L d s"
      and quiet: "\<forall>y p. Pixmap_of_xref L d y = Inr p \<longrightarrow>
            (\<exists>c. normalize_colorspace L p = Inr c \<and>
               (max (width c) (height c) \<le> 0 \<longrightarrow> (\<exists>b. tobytes_jpg L c q = Inr b)))"
      and run: "process_image L q 0 page x s = Inl (e, s')"
  shows "e = ZeroDivisionError"
proof -
  from run have notin: "x \<notin> processed_xrefs s"
    by (auto simp: process_image_def split: if_splits)
  from run notin obtain p where p: "Pixmap_of_xref L (doc s) x = Inr p"
    by (cases "Pixmap_of_xref L (doc s) x") (auto simp: process_image_def)
  with assms(1) notin have "Pixmap_of_xref L d x = Inr p" by (simp add: agrees_def)
  with quiet obtain c where c: "normalize_colorspace L p = Inr c"
    "max (width c) (height c) \<le> 0 \<longrightarrow> (\<exists>b. tobytes_jpg L c q = Inr b)" by blast
  show ?thesis
  proof (cases "0 < max (width c) (height c)")
    case True
    then have "downscale L 0 c = Inl ZeroDivisionError" by (simp add: downscale_def)
    with run notin p c(1) show ?thesis by (simp add: process_image_def)
  next
    case False
    then have "downscale L 0 c = Inr c" by (simp add: downscale_def)
    moreover from False c(2) obtain b where "tobytes_jpg L c q = Inr b" by auto
    ultimately show ?thesis using run notin p c(1) by (simp add: process_image_def Let_def)
  qed
qed

text \<open>
  Claim C10, as amended. The division by \<^verbatim>\<open>max_dimension\<close> is not guarded. For
  \<^verbatim>\<open>max_dimension\<close> at least 1 it never raises. With \<^verbatim>\<open>-m 0\<close>, which the command line passes on
  unchecked, and a document with an image that can be materialized and whose buffer, after
  lines 54 and 55, has a positive width or height, an exception leaves \<^verbatim>\<open>compress_pdf\<close>: nothing is saved and the process
  ends with status 1. The exception is the \<^verbatim>\<open>ZeroDivisionError\<close> of the division when
  nothing raises before a division is reached, that is when every image that can be
  materialized has a colorspace that lines 54 and 55 accept, and one without a positive
  width or height is re-encoded without error.
\<close>

theorem zero_max_dimension_stops_the_run:
  assumes "fs (arg_input a) = Some content"
      and "open_doc L content = Inr d"
      and "arg_max_dim a = 0"
      and "stable L"
      and image: "i < page_count L d" "x \<in> set (get_images L d i)" "Pixmap_of_xref L d x = Inr pix"
        "\<forall>rgb. normalize_colorspace L pix = Inr rgb \<longrightarrow> 0 < max (width rgb) (height rgb)"
  shows "raised (compress_pdf L fs (arg_input a) (output_pdf a) (arg_quality a) (arg_max_dim a)) \<noteq>
           None \<and>
         files (compress_pdf L fs (arg_input a) (output_pdf a) (arg_quality a) (arg_max_dim a)) = fs \<and>
         exit_status (main True L fs a) = 1 \<and>
         ((\<forall>y p. Pixmap_of_xref L d y = Inr p \<longrightarrow>
             (\<exists>c. normalize_colorspace L p = Inr c \<and>
                (max (width c) (height c) \<le> 0 \<longrightarrow> (\<exists>b. tobytes_jpg L c (arg_quality a) = Inr b)))) \<longrightarrow>
          raised (compress_pdf L fs (arg_input a) (output_pdf a) (arg_quality a) (arg_max_dim a)) =
            Some ZeroDivisionError) \<and>
         (\<forall>m p. 1 \<le> m \<longrightarrow> downscale L m p \<noteq> Inl ZeroDivisionError)"
proof -
  let ?q = "arg_quality a"
  let ?s0 = "\<lparr>doc = d, processed_xrefs = {}, stdout = [], calls = []\<rparr>"
  let ?run = "process_pages L ?q 0 (page_count L d) [0..<page_count L d] ?s0"
  let ?quiet = "\<forall>y p. Pixmap_of_xref L d y = Inr p \<longrightarrow>
             (\<exists>c. normalize_colorspace L p = Inr c \<and>
                (max (width c) (height c) \<le> 0 \<longrightarrow> (\<exists>b. tobytes_jpg L c ?q = Inr b)))"
  have a0: "agrees L d ?s0" by (simp add: agrees_def)
  have "?run \<noteq> Inr s'" for s'
  proof
    assume "?run = Inr s'"
    from target_pages [OF assms(4) image(3,4) a0 _ this] image(1,2) show False by simp
  qed
  then obtain e s' where abort: "?run = Inl (e, s')"
    by (cases ?run) auto
  have kind: "e = ZeroDivisionError" if quiet: ?quiet
  proof -
    have "case ?run of Inl (e, s') \<Rightarrow> e = ZeroDivisionError | Inr s' \<Rightarrow> agrees L d s'"
      using a0
    proof (rule process_pages_rule)
      show "\<And>s out. agrees L d s \<Longrightarrow> agrees L d (s\<lparr>stdout := out\<rparr>)" by (simp add: agrees_def)
      show "\<And>page x s s'. agrees L d s \<Longrightarrow> process_image L ?q 0 page x s = Inr s' \<Longrightarrow>
              agrees L d s'"
        using agrees_step [OF assms(4)] by blast
      show "\<And>page x s e s'. agrees L d s \<Longrightarrow> process_image L ?q 0 page x s = Inl (e, s') \<Longrightarrow>
              e = ZeroDivisionError"
        using only_the_division_raises [OF _ quiet] by blast
    qed
    with abort show ?thesis by simp
  qed
  from abort assms(1-3) kind show ?thesis
    by (auto simp: compress_pdf_def main_def Let_def downscale_defined)
qed

theorem zero_max_dimension_stops_the_run_witness:
  "raised (compress_pdf (pymupdf one_unreadable) [''in.pdf'' \<mapsto> [1, 2, 3]] ''in.pdf''
             ''in_compressed.pdf'' 30 0) = Some ZeroDivisionError \<and>
   files (compress_pdf (pymupdf one_unreadable) [''in.pdf'' \<mapsto> [1, 2, 3]] ''in.pdf''
             ''in_compressed.pdf'' 30 0) = [''in.pdf'' \<mapsto> [1, 2, 3]] \<and>
   exit_status (main True (pymupdf one_unreadable) [''in.pdf'' \<mapsto> [1, 2, 3]]
      \<lparr>arg_input = ''in.pdf'', arg_output = Some ''in_compressed.pdf'', arg_quality = 30,
       arg_max_dim = 0\<rparr>) = 1"
proof -
  let ?L = "pymupdf one_unreadable"
  let ?a = "\<lparr>arg_input = ''in.pdf'', arg_output = Some ''in_compressed.pdf'', arg_quality = 30,
             arg_max_dim = 0\<rparr>"
  have opens: "open_doc ?L [1, 2, 3] = Inr one_unreadable"
    by (simp add: pymupdf_def)
  have image: "0 < page_count ?L one_unreadable" "8 \<in> set (get_images ?L one_unreadable 0)"
    "Pixmap_of_xref ?L one_unreadable 8 = Inr small_rgb"
    "\<forall>rgb. normalize_colorspace ?L small_rgb = Inr rgb \<longrightarrow> 0 < max (width rgb) (height rgb)"
    by (auto simp: pymupdf_def one_unreadable_def small_rgb_def normalize_colorspace_def csRGB_def)
  have quiet: "\<forall>y p. Pixmap_of_xref ?L one_unreadable y = Inr p \<longrightarrow>
             (\<exists>c. normalize_colorspace ?L p = Inr c \<and>
                (max (width c) (height c) \<le> 0 \<longrightarrow> (\<exists>b. tobytes_jpg ?L c (arg_quality ?a) = Inr b)))"
    by (auto simp: pymupdf_def one_unreadable_def small_rgb_def normalize_colorspace_def csRGB_def
        split: if_splits)
  show ?thesis
    using zero_max_dimension_stops_the_run [of "[''in.pdf'' \<mapsto> [1, 2, 3]]" ?a "[1, 2, 3]" ?L
        one_unreadable 0 8 small_rgb, OF _ opens _ stable_pymupdf image] quiet
    by (simp add: output_pdf_def)
qed

text \<open>
  The claim as stated (the division raises whenever an image with a positive dimension can
  be materialized) does not hold: an image mask has no colorspace, and line 54 raises
  \<^verbatim>\<open>AttributeError\<close> before line 59 is reached.
\<close>

theorem image_mask_raises_before_the_division:
  "raised (compress_pdf (pymupdf mask_only) [''in.pdf'' \<mapsto> [1, 2, 3]] ''in.pdf''
             ''in_compressed.pdf'' 30 0) = Some AttributeError"
  by (simp add: compress_pdf_def process_page_def process_image_def pymupdf_def mask_only_def
      normalize_colorspace_def Let_def)


subsection \<open>The colorspace\<close>





subsection \<open>The downscale\<close>

text \<open>
  For every library: the buffer is handed to \<^verbatim>\<open>shrink\<close> with the quotient
  \<open>max width height div max_dimension\<close> when that quotient exceeds 1, and is left as it is
  otherwise.
\<close>

lemma downscale_cases:
  assumes "m \<noteq> 0"
  shows "m < max (width pix) (height pix) \<Longrightarrow> 1 < max (width pix) (height pix) div m \<Longrightarrow>
           downscale L m pix =
             (case shrink L pix (max (width pix) (height pix) div m) of
                Inl msg \<Rightarrow> Inl (FitzError msg) | Inr small \<Rightarrow> Inr small)"
    and "\<not> (m < max (width pix) (height pix) \<and> 1 < max (width pix) (height pix) div m) \<Longrightarrow>
           downscale L m pix = Inr pix"
  using assms by (auto simp: downscale_def Let_def)

text \<open>
  Claim C1, at an image of 4000 by 3000 and \<^verbatim>\<open>max_dimension\<close> 2000. The quotient is 2, and
  \<^verbatim>\<open>pix.shrink(2)\<close> divides both dimensions by \<open>2 ^ 2\<close>: the buffer that is re-encoded is 1000
  by 750, not the 2000 by 1500 of a shrink by the factor 2.
\<close>

theorem large_image_shrunk_by_power_of_two:
  "trace (compress_pdf (pymupdf one_large) [''in.pdf'' \<mapsto> [1, 2, 3]] ''in.pdf'' ''out.pdf'' 30 2000) =
     [Materialize 5 True,
      Encode 5 \<lparr>width = 1000, height = 750, colorspace = Some csRGB, samples = []\<rparr> 30,
      Replace 0 5 [1000, 750, 30]]"
  by (simp add: compress_pdf_def process_page_def process_image_def pymupdf_def one_large_def
      large_image_def normalize_colorspace_def downscale_def csRGB_def Let_def)

subsection \<open>The default output path\<close>

lemma rfind_bounds: "- 1 \<le> rfind c p \<and> rfind c p < int (length p)"
  by (induction p) (auto simp: Let_def)

lemma rfind_absent: "c \<notin> set p \<Longrightarrow> rfind c p = - 1"
  by (induction p) (auto simp: Let_def)

lemma rfind_present: "c \<in> set p \<Longrightarrow> 0 \<le> rfind c p"
  by (induction p) (auto simp: Let_def)

lemma rfind_append:
  "rfind c (xs @ ys) = (if c \<in> set ys then int (length xs) + rfind c ys else rfind c xs)"
proof (induction xs)
  case Nil
  then show ?case by (simp add: rfind_absent)
next
  case (Cons x xs)
  then show ?case
    using rfind_present [of c ys] by (auto simp: Let_def)
qed

lemma rfind_after: "c \<notin> set (drop (nat (rfind c p + 1)) p)"
proof (induction p)
  case Nil
  then show ?case by simp
next
  case (Cons x xs)
  show ?case
  proof (cases "0 \<le> rfind c xs")
    case True
    then have "nat (rfind c (x # xs) + 1) = Suc (nat (rfind c xs + 1))"
      by (simp add: Let_def nat_add_distrib)
    with Cons show ?thesis by simp
  next
    case False
    with rfind_present [of c xs] have "c \<notin> set xs" by auto
    with False show ?thesis by (auto simp: Let_def)
  qed
qed

lemma rfind_take:
  assumes "rfind c p < int k"
  shows "rfind c (take k p) = rfind c p"
proof -
  have "nat (rfind c p + 1) \<le> k" using assms by simp
  then have "set (drop k p) \<subseteq> set (drop (nat (rfind c p + 1)) p)"
    by (rule set_drop_subset_set_drop)
  with rfind_after [of c p] have "c \<notin> set (drop k p)" by blast
  with rfind_append [of c "take k p" "drop k p"] show ?thesis by simp
qed

lemma dirname_same_head:
  assumes "rfind CHR ''/'' p' = rfind CHR ''/'' p"
      and "take (nat (rfind CHR ''/'' p + 1)) p' = take (nat (rfind CHR ''/'' p + 1)) p"
  shows "dirname p' = dirname p"
  by (simp only: dirname_def Let_def assms)

lemma splitext_parts:
  "fst (splitext p) @ snd (splitext p) = p"
  "CHR ''/'' \<notin> set (snd (splitext p))"
  "rfind CHR ''/'' (fst (splitext p)) = rfind CHR ''/'' p"
  "rfind CHR ''/'' p < int (length (fst (splitext p)))"
proof -
  let ?sep = "rfind CHR ''/'' p" and ?dot = "rfind CHR ''.'' p"
  show "fst (splitext p) @ snd (splitext p) = p"
    by (simp add: splitext_def Let_def)
  have after: "CHR ''/'' \<notin> set (drop (nat ?dot) p)" if "?sep < ?dot"
  proof -
    from that have "nat (?sep + 1) \<le> nat ?dot" by simp
    then have "set (drop (nat ?dot) p) \<subseteq> set (drop (nat (?sep + 1)) p)"
      by (rule set_drop_subset_set_drop)
    with rfind_after [of "CHR ''/''" p] show ?thesis by blast
  qed
  then show "CHR ''/'' \<notin> set (snd (splitext p))"
    by (simp add: splitext_def Let_def)
  show "rfind CHR ''/'' (fst (splitext p)) = rfind CHR ''/'' p"
    using rfind_take [of "CHR ''/''" p "nat ?dot"] by (auto simp: splitext_def Let_def)
  show "rfind CHR ''/'' p < int (length (fst (splitext p)))"
    using rfind_bounds [of "CHR ''/''" p] rfind_bounds [of "CHR ''.''" p]
    by (auto simp: splitext_def Let_def)
qed

lemma splitext_extension:
  "snd (splitext p) = [] \<or> hd (snd (splitext p)) = CHR ''.''"
proof (cases "rfind CHR ''.'' p < 0")
  case True
  with rfind_bounds [of "CHR ''/''" p] show ?thesis
    by (simp add: splitext_def Let_def)
next
  case False
  let ?dot = "rfind CHR ''.'' p"
  from False have "CHR ''.'' \<in> set p"
    using rfind_absent [of "CHR ''.''" p] by force
  have "drop (nat ?dot) p \<noteq> [] \<and> hd (drop (nat ?dot) p) = CHR ''.''"
    using False
  proof (induction p)
    case Nil
    then show ?case by simp
  next
    case (Cons x xs)
    show ?case
    proof (cases "0 \<le> rfind CHR ''.'' xs")
      case True
      then have "nat (rfind CHR ''.'' (x # xs)) = Suc (nat (rfind CHR ''.'' xs))"
        by (simp add: Let_def nat_add_distrib)
      with Cons.IH True show ?thesis by simp
    next
      case neg: False
      with Cons.prems show ?thesis by (auto simp: Let_def split: if_splits)
    qed
  qed
  then show ?thesis by (simp add: splitext_def Let_def)
qed

text \<open>
  Claim C9. Without \<^verbatim>\<open>-o\<close>, the output path is the input path with \<^verbatim>\<open>_compressed\<close> put between
  the two parts \<^verbatim>\<open>os.path.splitext\<close> splits it into: the stem, and the extension, which is
  empty or starts with a dot and holds no slash. So the output lies in the directory of
  the input.
\<close>

theorem default_output_path:
  assumes "arg_output a = None"
  shows "output_pdf a =
           fst (splitext (arg_input a)) @ ''_compressed'' @ snd (splitext (arg_input a)) \<and>
         fst (splitext (arg_input a)) @ snd (splitext (arg_input a)) = arg_input a \<and>
         (snd (splitext (arg_input a)) = [] \<or> hd (snd (splitext (arg_input a))) = CHR ''.'') \<and>
         CHR ''/'' \<notin> set (snd (splitext (arg_input a))) \<and>
         dirname (output_pdf a) = dirname (arg_input a)"
proof -
  let ?p = "arg_input a"
  let ?name = "fst (splitext ?p)" and ?ext = "snd (splitext ?p)"
  let ?sep = "rfind CHR ''/'' ?p"
  have out: "output_pdf a = ?name @ ''_compressed'' @ ?ext"
    using assms by (simp add: output_pdf_def split: prod.splits)
  have "CHR ''/'' \<notin> set (''_compressed'' @ ?ext)"
    using splitext_parts(2) [of ?p] by simp
  then have sep: "rfind CHR ''/'' (?name @ ''_compressed'' @ ?ext) = ?sep"
    using rfind_append [of "CHR ''/''" ?name "''_compressed'' @ ?ext"] splitext_parts(3) [of ?p]
    by simp
  have len: "nat (?sep + 1) \<le> length ?name"
    using splitext_parts(4) [of ?p] by simp
  then have "take (nat (?sep + 1)) (?name @ ''_compressed'' @ ?ext) = take (nat (?sep + 1)) ?name"
    by simp
  also have "\<dots> = take (nat (?sep + 1)) (?name @ ?ext)"
    using len by simp
  also have "\<dots> = take (nat (?sep + 1)) ?p"
    by (simp only: splitext_parts(1))
  finally have "dirname (?name @ ''_compressed'' @ ?ext) = dirname ?p"
    using sep by (intro dirname_same_head)
  with out splitext_parts(1,2) [of ?p] splitext_extension [of ?p] show ?thesis by simp
qed

theorem default_output_path_witness:
  "output_pdf \<lparr>arg_input = ''dir/a.pdf'', arg_output = None, arg_quality = 30, arg_max_dim = 2000\<rparr> =
     ''dir/a_compressed.pdf'' \<and>
   dirname ''dir/a_compressed.pdf'' = ''dir'' \<and> dirname ''dir/a.pdf'' = ''dir''"
  using default_output_path
    [of "\<lparr>arg_input = ''dir/a.pdf'', arg_output = None, arg_quality = 30, arg_max_dim = 2000\<rparr>"]
  by (simp add: splitext_def has_name.simps dirname_def rstrip_def Let_def)

text \<open>Some paths, as \<^verbatim>\<open>os.path.splitext\<close> and \<^verbatim>\<open>os.path.dirname\<close> split them.\<close>

lemma splitext_examples:
  "splitext ''dir/.hidden'' = (''dir/.hidden'', [])"
  "splitext ''a.tar.gz'' = (''a.tar'', ''.gz'')"
  "splitext ''d.x/file'' = (''d.x/file'', [])"
  "splitext ''..a.b'' = (''..a'', ''.b'')"
  "splitext ''a.'' = (''a'', ''.'')"
  by (simp_all add: splitext_def has_name.simps Let_def)

lemma dirname_examples:
  "dirname ''/a'' = ''/''"
  "dirname ''a//b'' = ''a''"
  "dirname ''abc'' = []"
  "dirname ''//x'' = ''//''"
  by (simp_all add: dirname_def rstrip_def Let_def)

subsection \<open>The size report\<close>

text \<open>
  The rounding \<open>fl\<close> changes nothing on \<open>n / 2 ^ k\<close> for \<open>n\<close> below \<open>2 ^ 53\<close>: the two
  divisions by 1024 of a file size are exact.
\<close>

lemma bit_length_bounds:
  "0 < n \<Longrightarrow> 1 \<le> bit_length n \<and> 2 ^ nat (bit_length n - 1) \<le> n \<and> n < 2 ^ nat (bit_length n)"
proof (induction n rule: bit_length.induct)
  case (1 n)
  show ?case
  proof (cases "n = 1")
    case True
    then show ?thesis by (simp add: bit_length.simps [of 1] bit_length.simps [of 0])
  next
    case False
    with "1.prems" have half: "0 < n div 2" by simp
    with "1.IH" "1.prems" have IH: "1 \<le> bit_length (n div 2)"
      "2 ^ nat (bit_length (n div 2) - 1) \<le> n div 2" "n div 2 < 2 ^ nat (bit_length (n div 2))"
      by simp_all
    have bl: "bit_length n = 1 + bit_length (n div 2)"
      using "1.prems" by (subst bit_length.simps) simp
    have n1: "nat (bit_length n - 1) = Suc (nat (bit_length (n div 2) - 1))"
      using IH(1) bl by simp
    have n2: "nat (bit_length n) = Suc (nat (bit_length (n div 2)))"
      using IH(1) bl by simp
    from IH(2) have lo: "2 * 2 ^ nat (bit_length (n div 2) - 1) \<le> n" by simp
    from IH(3) have hi: "n < 2 * 2 ^ nat (bit_length (n div 2))" by simp
    have "1 \<le> bit_length n" using IH(1) bl by simp
    moreover have "2 ^ nat (bit_length n - 1) \<le> n" unfolding n1 using lo by simp
    moreover have "n < 2 ^ nat (bit_length n)" unfolding n2 using hi by simp
    ultimately show ?thesis by simp
  qed
qed

lemma pow2_powi: "pow2 e = 2 powi e"
  by (simp add: pow2_def power_int_def field_simps)


lemma exponent_bounds:
  assumes "x \<noteq> 0"
  shows "2 powi exponent x \<le> \<bar>x\<bar> \<and> \<bar>x\<bar> < 2 powi (exponent x + 1)"
proof -
  obtain a b where q: "quotient_of \<bar>x\<bar> = (a, b)" by (cases "quotient_of \<bar>x\<bar>")
  then have b: "0 < b" and x: "\<bar>x\<bar> = of_int a / of_int b"
    by (simp_all add: quotient_of_denom_pos quotient_of_div)
  from assms have "0 < \<bar>x\<bar>" by simp
  with x b have a: "0 < a" by (simp add: zero_less_divide_iff)
  let ?k = "bit_length a - bit_length b"
  from bit_length_bounds [OF a] have A: "1 \<le> bit_length a"
    "2 ^ nat (bit_length a - 1) \<le> a" "a < 2 ^ nat (bit_length a)" by simp_all
  from bit_length_bounds [OF b] have B: "1 \<le> bit_length b"
    "2 ^ nat (bit_length b - 1) \<le> b" "b < 2 ^ nat (bit_length b)" by simp_all
  have ra: "(2::rat) powi (bit_length a - 1) \<le> of_int a" "of_int a < (2::rat) powi bit_length a"
  proof -
    have "(2::rat) powi (bit_length a - 1) = of_int (2 ^ nat (bit_length a - 1))"
      using A(1) by (simp add: power_int_def)
    also have "\<dots> \<le> of_int a" using A(2) by (simp only: of_int_le_iff)
    finally show "(2::rat) powi (bit_length a - 1) \<le> of_int a" .
    have "(of_int a :: rat) < of_int (2 ^ nat (bit_length a))" using A(3) by (simp only: of_int_less_iff)
    also have "\<dots> = 2 powi bit_length a" using A(1) by (simp add: power_int_def)
    finally show "of_int a < (2::rat) powi bit_length a" .
  qed
  have rb: "(2::rat) powi (bit_length b - 1) \<le> of_int b" "of_int b < (2::rat) powi bit_length b"
  proof -
    have "(2::rat) powi (bit_length b - 1) = of_int (2 ^ nat (bit_length b - 1))"
      using B(1) by (simp add: power_int_def)
    also have "\<dots> \<le> of_int b" using B(2) by (simp only: of_int_le_iff)
    finally show "(2::rat) powi (bit_length b - 1) \<le> of_int b" .
    have "(of_int b :: rat) < of_int (2 ^ nat (bit_length b))" using B(3) by (simp only: of_int_less_iff)
    also have "\<dots> = 2 powi bit_length b" using B(1) by (simp add: power_int_def)
    finally show "of_int b < (2::rat) powi bit_length b" .
  qed
  have bpos: "(0::rat) < of_int b" using b by simp
  have upper: "\<bar>x\<bar> < 2 powi (?k + 1)"
  proof -
    have "of_int a * (2::rat) powi (bit_length b - 1) < 2 powi bit_length a * of_int b"
      using ra(2) rb(1) bpos a
      by (intro mult_less_le_imp_less) simp_all
    then have "of_int a / of_int b < (2::rat) powi bit_length a / 2 powi (bit_length b - 1)"
      using bpos by (simp add: field_simps)
    also have "\<dots> = 2 powi (?k + 1)"
      by (simp add: power_int_diff [symmetric] algebra_simps)
    finally show ?thesis by (simp add: x)
  qed
  have lower: "2 powi (?k - 1) \<le> \<bar>x\<bar>"
  proof -
    have "(2::rat) powi (bit_length a - 1) * of_int b \<le> of_int a * 2 powi bit_length b"
      using ra(1) rb(2) bpos a
      by (intro mult_mono) simp_all
    then have "(2::rat) powi (bit_length a - 1) / 2 powi bit_length b \<le> of_int a / of_int b"
      using bpos by (simp add: field_simps)
    moreover have "(2::rat) powi (bit_length a - 1) / 2 powi bit_length b = 2 powi (?k - 1)"
      by (simp add: power_int_diff [symmetric] algebra_simps)
    ultimately show ?thesis by (simp add: x)
  qed
  show ?thesis
  proof (cases "pow2 ?k \<le> \<bar>x\<bar>")
    case True
    then have "exponent x = ?k" by (simp add: exponent_def q)
    with True upper show ?thesis by (simp add: pow2_powi)
  next
    case False
    then have "exponent x = ?k - 1" by (simp add: exponent_def q)
    with False lower show ?thesis by (simp add: pow2_powi)
  qed
qed

lemma round_half_even_of_int: "round_half_even (of_int z) = z"
  by (simp add: round_half_even_def)


lemma fl_exact:
  assumes "0 < n" and "n < 2 ^ 53"
  shows "fl (of_int n / 2 ^ k) = of_int n / 2 ^ k"
proof -
  let ?x = "of_int n / 2 ^ k :: rat"
  let ?e = "exponent ?x"
  have pos: "0 < ?x" using assms(1) by simp
  have nz: "?x \<noteq> 0" using assms(1) by simp
  have "\<bar>?x\<bar> = ?x" using pos by (simp only: abs_of_pos)
  with exponent_bounds [OF nz] have lo: "2 powi ?e \<le> ?x" by (simp only:)
  have "(2::rat) powi (?e + int k) = 2 powi ?e * 2 ^ k"
    by (simp add: power_int_add)
  also have "\<dots> \<le> ?x * 2 ^ k" using lo by (intro mult_right_mono) simp_all
  also have "\<dots> = of_int n" by simp
  also have "\<dots> < of_int (2 ^ 53)" using assms(2) by (simp only: of_int_less_iff)
  also have "\<dots> = (2::rat) powi 53" by simp
  finally have small: "?e + int k < 53"
    by (intro power_int_le_imp_less_exp [of "2::rat"]) simp_all
  define j where "j = nat (52 - ?e - int k)"
  have j: "52 - ?e = int j + int k" using small by (simp add: j_def)
  have ulp: "pow2 (?e - 52) * 2 ^ j * 2 ^ k = 1"
  proof -
    have "pow2 (?e - 52) * 2 ^ j * 2 ^ k = 2 powi (?e - 52) * 2 powi (int j + int k)"
      by (simp add: pow2_powi power_int_add)
    also have "\<dots> = 2 powi (?e - 52) * 2 powi (52 - ?e)" by (simp only: j)
    also have "\<dots> = 2 powi ((?e - 52) + (52 - ?e))"
      by (rule power_int_add [symmetric]) simp
    also have "\<dots> = 1" by simp
    finally show ?thesis .
  qed
  have upos: "0 < pow2 (?e - 52)" by (simp add: pow2_powi)
  have q: "?x / pow2 (?e - 52) = of_int (n * 2 ^ j)"
  proof -
    have "of_int (n * 2 ^ j) * pow2 (?e - 52) = of_int n * (pow2 (?e - 52) * 2 ^ j * 2 ^ k) / 2 ^ k"
      by simp
    also have "\<dots> = ?x" by (simp only: ulp mult_1_right)
    finally show ?thesis using upos by (simp add: field_simps)
  qed
  have "fl ?x = of_int (n * 2 ^ j) * pow2 (?e - 52)"
    using nz by (simp only: fl_def Let_def q round_half_even_of_int if_False)
  also have "\<dots> = ?x / pow2 (?e - 52) * pow2 (?e - 52)" by (simp only: q)
  also have "\<dots> = ?x" using upos by simp
  finally show ?thesis .
qed

lemma mebibytes_exact:
  assumes "0 \<le> n" and "n < 2 ^ 53"
  shows "fl (fl (of_int n / 1024) / 1024) = of_int n / 1048576"
proof (cases "n = 0")
  case True
  then show ?thesis by (simp add: fl_def)
next
  case False
  with assms have n: "0 < n" by simp
  have e10: "(of_int n / 1024 :: rat) = of_int n / 2 ^ 10" by simp
  have e20: "(of_int n / 2 ^ 10 / 1024 :: rat) = of_int n / 2 ^ 20" by simp
  have e: "(of_int n / 1048576 :: rat) = of_int n / 2 ^ 20" by simp
  show ?thesis
    by (simp only: e10 fl_exact [OF n assms(2)] e20 e)
qed


text \<open>A formatted number has as many decimals as the format asks for.\<close>

lemma digit_no_dot: "0 \<le> d \<Longrightarrow> d < 10 \<Longrightarrow> digit d \<noteq> CHR ''.''"
proof -
  assume "0 \<le> d" "d < 10"
  then have "nat d < length ''0123456789''" by simp
  moreover have "list_all (\<lambda>c. c \<noteq> CHR ''.'') ''0123456789''" by simp
  ultimately show ?thesis unfolding digit_def list_all_length by blast
qed

lemma str_int_no_dot: "CHR ''.'' \<notin> set (str_int n)"
proof (induction n rule: str_int.induct)
  case (1 n)
  show ?case
  proof (cases "n < 0")
    case True
    with "1.IH"(1) show ?thesis by (subst str_int.simps) simp
  next
    case nonneg: False
    show ?thesis
    proof (cases "n < 10")
      case True
      with nonneg digit_no_dot [of n] show ?thesis by (subst str_int.simps) auto
    next
      case False
      with nonneg "1.IH"(2) digit_no_dot [of "n mod 10"] show ?thesis
        by (subst str_int.simps) auto
    qed
  qed
qed

lemma str_int_length: "0 \<le> v \<Longrightarrow> v < 10 ^ p \<Longrightarrow> 0 < p \<Longrightarrow> length (str_int v) \<le> p"
proof (induction v arbitrary: p rule: str_int.induct)
  case (1 n)
  show ?case
  proof (cases "n < 10")
    case True
    with "1.prems" show ?thesis by (subst str_int.simps) simp
  next
    case False
    obtain p' where p: "p = Suc p'" using "1.prems"(3) by (cases p) simp_all
    have "p' \<noteq> 0" using False "1.prems"(2) p by (cases p') simp_all
    moreover have "n div 10 < 10 ^ p'" using "1.prems"(2) p by simp
    ultimately have "length (str_int (n div 10)) \<le> p'"
      using "1.IH"(2) [of p'] False "1.prems"(1) by simp
    with False "1.prems"(1) p show ?thesis by (subst str_int.simps) simp
  qed
qed

lemma decimals_format_f:
  assumes "0 < p"
  shows "length (decimals (format_f p x)) = p"
proof -
  let ?r = "round_half_even (\<bar>x\<bar> * 10 ^ p)"
  let ?pre = "(if x < 0 then ''-'' else []) @ str_int (?r div 10 ^ p)"
  let ?frac = "zfill p (str_int (?r mod 10 ^ p))"
  have f: "format_f p x = ?pre @ CHR ''.'' # ?frac"
    using assms by (simp add: format_f_def Let_def)
  have "\<forall>c \<in> set ?pre. c \<noteq> CHR ''.''"
    using str_int_no_dot [of "?r div 10 ^ p"] by auto
  then have "dropWhile (\<lambda>c. c \<noteq> CHR ''.'') (?pre @ CHR ''.'' # ?frac) = CHR ''.'' # ?frac"
    by (subst dropWhile_append2) auto
  then have "decimals (format_f p x) = ?frac" by (simp add: decimals_def f)
  moreover have "length (str_int (?r mod 10 ^ p)) \<le> p"
    using assms by (intro str_int_length) simp_all
  ultimately show ?thesis by (simp add: zfill_def)
qed

text \<open>The report is what a completed run prints last, from the sizes of the two files.\<close>

lemma report_follows_save:
  assumes "fs inp = Some content" and "raised (compress_pdf L fs inp out q m) = None"
  shows "\<exists>progress written.
           files (compress_pdf L fs inp out q m) = fs(out \<mapsto> written) \<and>
           printed (compress_pdf L fs inp out q m) =
             progress @ [CHR 0x0A # ''Saving compressed PDF...''] @
             size_report (getsize (files (compress_pdf L fs inp out q m)) inp)
               (getsize (files (compress_pdf L fs inp out q m)) out)"
proof (cases "open_doc L content")
  case (Inl msg)
  with assms show ?thesis by (simp add: compress_pdf_def)
next
  case (Inr d)
  let ?s0 = "\<lparr>doc = d, processed_xrefs = {}, stdout = [], calls = []\<rparr>"
  show ?thesis
  proof (cases "process_pages L q m (page_count L d) [0..<page_count L d] ?s0")
    case (Inl r)
    with assms Inr show ?thesis by (cases r) (simp add: compress_pdf_def)
  next
    case run: (Inr s)
    show ?thesis
    proof (cases "save L (doc s)")
      case (Inl msg)
      with assms Inr run show ?thesis by (simp add: compress_pdf_def Let_def)
    next
      case saved: (Inr written)
      with assms(1) Inr run show ?thesis
        by (intro exI [of _ "stdout s"] exI [of _ written]) (simp add: compress_pdf_def Let_def)
    qed
  qed
qed

text \<open>
  Claim C7. After saving, the tool prints the report of the sizes of the input and the
  output file. Its first two lines give the sizes in MiB, bytes / 1024 / 1024, rounded to
  two decimals (for sizes below \<open>2 ^ 53\<close> bytes the float division is exact); the line
  with the reduction, \<open>(1 - final / initial) * 100\<close> in float arithmetic with one decimal,
  is printed exactly when the initial size is positive. An input of 10485760 bytes and
  an output of 5242880 bytes give the three lines of the scenario.
\<close>

theorem sizes_reported_after_saving:
  "(fs inp = Some content \<and> raised (compress_pdf L fs inp out q m) = None \<longrightarrow>
      (\<exists>progress written.
           files (compress_pdf L fs inp out q m) = fs(out \<mapsto> written) \<and>
           printed (compress_pdf L fs inp out q m) =
             progress @ [CHR 0x0A # ''Saving compressed PDF...''] @
             size_report (getsize (files (compress_pdf L fs inp out q m)) inp)
               (getsize (files (compress_pdf L fs inp out q m)) out))) \<and>
   (0 \<le> initial_size \<and> initial_size < 2 ^ 53 \<and> 0 \<le> final_size \<and> final_size < 2 ^ 53 \<longrightarrow>
      take 2 (size_report initial_size final_size) =
        [''Original size: '' @ format_f 2 (of_int initial_size / 1024 / 1024) @ '' MB'',
         ''Compressed size: '' @ format_f 2 (of_int final_size / 1024 / 1024) @ '' MB'']) \<and>
   drop 2 (size_report initial_size final_size) =
     (if 0 < initial_size then
        [''Reduction: '' @
           format_f 1 (fl (fl (1 - fl (of_int final_size / of_int initial_size)) * 100)) @ ''%'']
      else []) \<and>
   length (decimals (format_f 2 x)) = 2 \<and> length (decimals (format_f 1 y)) = 1"
proof -
  have "take 2 (size_report initial_size final_size) =
        [''Original size: '' @ format_f 2 (of_int initial_size / 1024 / 1024) @ '' MB'',
         ''Compressed size: '' @ format_f 2 (of_int final_size / 1024 / 1024) @ '' MB'']"
    if "0 \<le> initial_size" "initial_size < 2 ^ 53" "0 \<le> final_size" "final_size < 2 ^ 53"
    using that by (simp add: size_report_def mebibytes_exact)
  moreover have "drop 2 (size_report initial_size final_size) =
     (if 0 < initial_size then
        [''Reduction: '' @
           format_f 1 (fl (fl (1 - fl (of_int final_size / of_int initial_size)) * 100)) @ ''%'']
      else [])"
    by (simp add: size_report_def)
  ultimately show ?thesis
    using report_follows_save [of fs inp content L out q m]
    by (simp only: decimals_format_f zero_less_numeral zero_less_one simp_thms) blast
qed

theorem sizes_reported_after_saving_witness:
  "printed (compress_pdf halving [''in.pdf'' \<mapsto> replicate 10485760 0] ''in.pdf'' ''out.pdf'' 30 2000) =
     [CHR 0x0A # ''Saving compressed PDF...'',
      ''Original size: 10.00 MB'', ''Compressed size: 5.00 MB'', ''Reduction: 50.0%'']"
proof -
  let ?fs = "[''in.pdf'' \<mapsto> replicate 10485760 (0::nat)]"
  let ?r = "compress_pdf halving ?fs ''in.pdf'' ''out.pdf'' 30 2000"
  have ok: "?fs ''in.pdf'' = Some (replicate 10485760 0)" "raised ?r = None"
    by (simp_all add: compress_pdf_def halving_def pymupdf_def no_images_def Let_def)
  have sizes: "getsize (files ?r) ''in.pdf'' = 10485760" "getsize (files ?r) ''out.pdf'' = 5242880"
    by (simp_all add: compress_pdf_def halving_def pymupdf_def no_images_def Let_def getsize_def)
  have pr: "printed ?r = [CHR 0x0A # ''Saving compressed PDF...''] @ size_report 10485760 5242880"
    by (simp add: compress_pdf_def halving_def pymupdf_def no_images_def Let_def getsize_def)
  have a: "format_f 2 (of_int 10485760 / 1024 / 1024) = ''10.00''" by code_simp
  have b: "format_f 2 (of_int 5242880 / 1024 / 1024) = ''5.00''" by code_simp
  have c: "format_f 1 (fl (fl (1 - fl (of_int 5242880 / of_int 10485760)) * 100)) = ''50.0''"
    by code_simp
  note inst = sizes_reported_after_saving [of ?fs "''in.pdf''" "replicate 10485760 0" halving
      "''out.pdf''" 30 2000 10485760 5242880]
  from inst ok have "\<exists>progress. printed ?r =
      progress @ [CHR 0x0A # ''Saving compressed PDF...''] @ size_report 10485760 5242880"
    unfolding sizes by blast
  have "take 2 (size_report 10485760 5242880) @ drop 2 (size_report 10485760 5242880) =
          [''Original size: 10.00 MB'', ''Compressed size: 5.00 MB'', ''Reduction: 50.0%'']"
    using inst by (simp only: a b c) simp
  then have "size_report 10485760 5242880 =
          [''Original size: 10.00 MB'', ''Compressed size: 5.00 MB'', ''Reduction: 50.0%'']"
    by simp
  with pr show ?thesis by simp
qed


end
